theory Spec2Isabelle
  imports Main "HOL-Library.Word"
begin

section \<open>Voice-clone assistant front end: \<^verbatim>\<open>src/frontend/script.js\<close>\<close>

text \<open>
  The script toggles a \<^verbatim>\<open>MediaRecorder\<close>, buffers the chunks it delivers, posts them
  to the assistant endpoint when the recorder stops, and decodes the hex string of the
  JSON answer into the bytes of the audio to play back.

  The browser is the environment: a JavaScript string is a list of UTF-16 code units, a
  \<^verbatim>\<open>Uint8Array\<close> element is an 8-bit word, a \<^verbatim>\<open>Blob\<close> is its bytes and its type, and the
  event loop is a step function over the page state, one step for each task the
  browser runs.
\<close>

subsection \<open>Strings and bytes\<close>

type_synonym codeunit = "16 word"
type_synonym jsstring = "codeunit list"
type_synonym byte = "8 word"

text \<open>A literal of the script, whose characters are all ASCII, as a JavaScript string.\<close>

definition js :: "string \<Rightarrow> jsstring" where
  "js s = map (\<lambda>c. of_nat (of_char c)) s"

subsection \<open>\<^verbatim>\<open>data.audio.match(/.{1,2}/g)\<close>\<close>

text \<open>
  Without the \<^verbatim>\<open>s\<close> flag the dot matches every code unit but the four line terminators
  of ECMAScript: LF, CR, LS and PS.
\<close>

definition isLineTerminator :: "codeunit \<Rightarrow> bool" where
  "isLineTerminator c = (c = 0x000A \<or> c = 0x000D \<or> c = 0x2028 \<or> c = 0x2029)"

text \<open>
  The global match scans from left to right. At a position where the dot cannot match,
  the search moves on by one code unit; where it can, the greedy quantifier takes a
  second code unit when there is one that the dot matches, and the next search starts
  after the match.
\<close>

fun match_groups :: "jsstring \<Rightarrow> jsstring list" where
  "match_groups [] = []"
| "match_groups [c] = (if isLineTerminator c then [] else [[c]])"
| "match_groups (c # d # s) =
     (if isLineTerminator c then match_groups (d # s)
      else if isLineTerminator d then [c] # match_groups s
      else [c, d] # match_groups s)"

text \<open>\<^verbatim>\<open>String.prototype.match\<close> with a global pattern: \<^verbatim>\<open>null\<close> when nothing matched.\<close>

definition String_match :: "jsstring \<Rightarrow> jsstring list option" where
  "String_match s = (case match_groups s of [] \<Rightarrow> None | g # gs \<Rightarrow> Some (g # gs))"

subsection \<open>\<^verbatim>\<open>parseInt(byte, 16)\<close>\<close>

text \<open>
  The white space that \<^verbatim>\<open>parseInt\<close> trims from the start of its input: the WhiteSpace
  code points (TAB, VT, FF, ZWNBSP and the space separators) and the line terminators.
\<close>

definition isStrWhiteSpaceChar :: "codeunit \<Rightarrow> bool" where
  "isStrWhiteSpaceChar c =
     (c = 0x0009 \<or> c = 0x000B \<or> c = 0x000C \<or> c = 0x0020 \<or> c = 0x00A0 \<or> c = 0x1680 \<or>
      (0x2000 \<le> c \<and> c \<le> 0x200A) \<or> c = 0x202F \<or> c = 0x205F \<or> c = 0x3000 \<or>
      c = 0xFEFF \<or> isLineTerminator c)"

text \<open>The value of a radix-16 digit: \<^verbatim>\<open>0-9\<close>, \<^verbatim>\<open>a-f\<close>, \<^verbatim>\<open>A-F\<close>.\<close>

definition radix16_digit :: "codeunit \<Rightarrow> nat option" where
  "radix16_digit c =
     (if 0x30 \<le> c \<and> c \<le> 0x39 then Some (unat c - 0x30)
      else if 0x61 \<le> c \<and> c \<le> 0x66 then Some (unat c - 0x61 + 10)
      else if 0x41 \<le> c \<and> c \<le> 0x46 then Some (unat c - 0x41 + 10)
      else None)"

definition isRadix16Digit :: "codeunit \<Rightarrow> bool" where
  "isRadix16Digit c = (case radix16_digit c of None \<Rightarrow> False | Some _ \<Rightarrow> True)"

definition digit_or_zero :: "codeunit \<Rightarrow> nat" where
  "digit_or_zero c = (case radix16_digit c of None \<Rightarrow> 0 | Some d \<Rightarrow> d)"

text \<open>Steps 3 and 4 of \<^verbatim>\<open>parseInt\<close>: the sign, and the input without it.\<close>

fun strip_sign :: "jsstring \<Rightarrow> int \<times> jsstring" where
  "strip_sign [] = (1, [])"
| "strip_sign (c # s) =
     (if c = 0x2D then (- 1, s) else if c = 0x2B then (1, s) else (1, c # s))"

text \<open>Step 9, taken since the radix is 16: a leading \<^verbatim>\<open>0x\<close> or \<^verbatim>\<open>0X\<close> is removed.\<close>

fun strip_prefix :: "jsstring \<Rightarrow> jsstring" where
  "strip_prefix (a # b # s) =
     (if a = 0x30 \<and> (b = 0x78 \<or> b = 0x58) then s else a # b # s)"
| "strip_prefix s = s"

text \<open>
  \<^verbatim>\<open>parseInt(s, 16)\<close>: \<open>None\<close> is \<^verbatim>\<open>NaN\<close>. The script calls it on groups of at most
  two code units, where every result is an exact integer (\<^verbatim>\<open>-0\<close> is \<open>0\<close> here; the
  conversion to a byte below does not tell them apart).
\<close>

definition parseInt16 :: "jsstring \<Rightarrow> int option" where
  "parseInt16 s =
     (let (sign, S) = strip_sign (dropWhile isStrWhiteSpaceChar s);
          Z = takeWhile isRadix16Digit (strip_prefix S)
      in if Z = [] then None
         else Some (sign * int (foldl (\<lambda>a c. 16 * a + digit_or_zero c) 0 Z)))"

subsection \<open>\<^verbatim>\<open>new Uint8Array(...)\<close>\<close>

text \<open>\<^verbatim>\<open>ToUint8\<close>: \<^verbatim>\<open>NaN\<close> becomes 0, an integer is taken modulo 256.\<close>

definition ToUint8 :: "int option \<Rightarrow> byte" where
  "ToUint8 v = (case v of None \<Rightarrow> 0 | Some n \<Rightarrow> word_of_int n)"

text \<open>
  What the script can throw or be rejected with: \<^verbatim>\<open>fetch\<close> rejects with a \<^verbatim>\<open>TypeError\<close>
  when the exchange fails, \<^verbatim>\<open>res.json()\<close> with a \<^verbatim>\<open>SyntaxError\<close>, \<^verbatim>\<open>getUserMedia\<close> with a
  \<^verbatim>\<open>NotAllowedError\<close>; reading a property of \<^verbatim>\<open>null\<close> or \<^verbatim>\<open>undefined\<close> and calling what
  is not a function throw a \<^verbatim>\<open>TypeError\<close>.
\<close>

datatype rejection = TypeError | SyntaxError | NotAllowedError

text \<open>
  Lines 30 to 32 on a string: calling \<^verbatim>\<open>map\<close> on the \<^verbatim>\<open>null\<close> of a failed match throws
  a \<^verbatim>\<open>TypeError\<close>.
\<close>

definition decodeAudio :: "jsstring \<Rightarrow> rejection + byte list" where
  "decodeAudio s =
     (case String_match s of
        None \<Rightarrow> Inl TypeError
      | Some groups \<Rightarrow> Inr (map (\<lambda>byte. ToUint8 (parseInt16 byte)) groups))"

subsection \<open>Blobs, the form and the request\<close>

record blob =
  blob_bytes :: "byte list"
  blob_type :: string

text \<open>\<^verbatim>\<open>new Blob(parts, { type })\<close>: the parts one after the other.\<close>

definition Blob :: "byte list list \<Rightarrow> string \<Rightarrow> blob" where
  "Blob parts ty = \<lparr>blob_bytes = concat parts, blob_type = ty\<rparr>"

record form_entry =
  entry_name :: string
  entry_filename :: string
  entry_value :: blob

type_synonym form_data = "form_entry list"

definition form_append :: "form_data \<Rightarrow> string \<Rightarrow> blob \<Rightarrow> string \<Rightarrow> form_data" where
  "form_append form name b filename =
     form @ [\<lparr>entry_name = name, entry_filename = filename, entry_value = b\<rparr>]"

record request =
  req_url :: string
  req_method :: string
  req_body :: form_data

text \<open>
  What comes back from the endpoint: the exchange fails, or there is a body, which
  \<^verbatim>\<open>res.json()\<close> parses or not. An object is its members in the order of the text;
  of two members with one key the later one is the property.
\<close>

datatype json =
    JNull
  | JBool bool
  | JNumber string
  | JString jsstring
  | JArray "json list"
  | JObject "(jsstring \<times> json) list"

datatype body = NotJson | Json json

datatype fetch_result = FetchFailed | Response body

text \<open>
  Lines 30 to 32 on the parsed answer. \<^verbatim>\<open>data.audio\<close> throws on \<^verbatim>\<open>null\<close> and is
  \<^verbatim>\<open>undefined\<close> on every value that has no such property; \<^verbatim>\<open>.match\<close> is a function on
  a string only.
\<close>

definition decode_response :: "json \<Rightarrow> rejection + byte list" where
  "decode_response data =
     (case data of
        JObject members \<Rightarrow>
          (case map_of (rev members) (js ''audio'') of
             Some (JString s) \<Rightarrow> decodeAudio s
           | _ \<Rightarrow> Inl TypeError)
      | _ \<Rightarrow> Inl TypeError)"

subsection \<open>The page\<close>

datatype recording_state = inactive | recording | paused

text \<open>The two functions the script registers on a recorder.\<close>

datatype handler = push_chunk | send_audio

text \<open>
  A \<^verbatim>\<open>MediaRecorder\<close>: its state, its two handler slots, and the stop events the
  browser has queued for it and not fired yet.
\<close>

record media_recorder =
  state :: recording_state
  ondataavailable :: "handler option"
  onstop :: "handler option"
  stop_queued :: nat

text \<open>
  The two globals of the script, the recorders created so far (\<open>mediaRecorder\<close> refers
  to one by its position), the runs of the click handler suspended at
  \<^verbatim>\<open>await getUserMedia\<close>, the requests sent, the runs of \<open>sendAudio\<close> suspended at
  \<^verbatim>\<open>await fetch\<close>, the source of the playback element (the blob behind the object URL),
  the rejections nobody handled, and the console.
\<close>

record page =
  mediaRecorder :: "nat option"
  chunks :: "byte list list"
  recorders :: "media_recorder list"
  acquiring :: nat
  requests :: "request list"
  awaiting_response :: nat
  responseAudio_src :: "blob option"
  unhandled :: "rejection list"
  console :: "string list"

definition initial_page :: page where
  "initial_page =
     \<lparr>mediaRecorder = None, chunks = [], recorders = [], acquiring = 0, requests = [],
      awaiting_response = 0, responseAudio_src = None, unhandled = [], console = []\<rparr>"

subsection \<open>\<open>sendAudio\<close>\<close>

text \<open>Lines 20 to 27: the request built from the buffer.\<close>

definition upload_request :: "byte list list \<Rightarrow> request" where
  "upload_request cs =
     (let blob = Blob cs ''audio/wav'';
          form = form_append [] ''audio'' blob ''audio.wav''
      in \<lparr>req_url = ''http://localhost:8000/assistant?voice_id=your-id-here'',
          req_method = ''POST'', req_body = form\<rparr>)"

text \<open>The function up to \<^verbatim>\<open>await fetch(...)\<close>: the request leaves, the run is suspended.\<close>

definition sendAudio_start :: "page \<Rightarrow> page" where
  "sendAudio_start p =
     p\<lparr>requests := requests p @ [upload_request (chunks p)],
       awaiting_response := Suc (awaiting_response p)\<rparr>"

text \<open>
  The rest of the function, once the exchange is settled. Nothing catches a rejection:
  it ends the run before the assignment of line 35.
\<close>

definition sendAudio_settle :: "fetch_result \<Rightarrow> rejection + blob" where
  "sendAudio_settle res =
     (case res of
        FetchFailed \<Rightarrow> Inl TypeError
      | Response NotJson \<Rightarrow> Inl SyntaxError
      | Response (Json data) \<Rightarrow>
          (case decode_response data of
             Inl e \<Rightarrow> Inl e
           | Inr audioBytes \<Rightarrow> Inr (Blob [audioBytes] ''audio/wav'')))"

definition sendAudio_resume :: "fetch_result \<Rightarrow> page \<Rightarrow> page" where
  "sendAudio_resume res p =
     (case sendAudio_settle res of
        Inl e \<Rightarrow> p\<lparr>unhandled := unhandled p @ [e]\<rparr>
      | Inr audioBlob \<Rightarrow> p\<lparr>responseAudio_src := Some audioBlob\<rparr>)"

text \<open>One whole run of \<open>sendAudio\<close>, with the answer it gets.\<close>

definition sendAudio :: "fetch_result \<Rightarrow> page \<Rightarrow> page" where
  "sendAudio res p =
     (let q = sendAudio_start p
      in sendAudio_resume res (q\<lparr>awaiting_response := awaiting_response q - 1\<rparr>))"

subsection \<open>The click handler\<close>

text \<open>\<^verbatim>\<open>mediaRecorder.stop()\<close>: the recorder is inactive at once, its stop event is queued.\<close>

definition MediaRecorder_stop :: "nat \<Rightarrow> page \<Rightarrow> page" where
  "MediaRecorder_stop r p =
     (let m = recorders p ! r
      in p\<lparr>recorders := (recorders p)[r := m\<lparr>state := inactive, stop_queued := Suc (stop_queued m)\<rparr>]\<rparr>)"

text \<open>
  Lines 5, 6 and 15: the test, and either the suspension at \<^verbatim>\<open>await getUserMedia\<close> or
  the stop. A reference is the position of a recorder that was created, so the
  branch for a reference to nothing is never taken.
\<close>

definition onclick :: "page \<Rightarrow> page" where
  "onclick p =
     (case mediaRecorder p of
        None \<Rightarrow> p\<lparr>acquiring := Suc (acquiring p)\<rparr>
      | Some r \<Rightarrow>
          if length (recorders p) \<le> r then p
          else if state (recorders p ! r) = inactive then p\<lparr>acquiring := Suc (acquiring p)\<rparr>
          else MediaRecorder_stop r p)"

text \<open>
  Lines 7 to 13, run when the stream arrives: a new recorder, the two handlers, the
  start, the log line.
\<close>

definition onclick_resume :: "page \<Rightarrow> page" where
  "onclick_resume p =
     (let m = \<lparr>state = inactive, ondataavailable = None, onstop = None, stop_queued = 0\<rparr>;
          m = m\<lparr>ondataavailable := Some push_chunk\<rparr>;
          m = m\<lparr>onstop := Some send_audio\<rparr>;
          m = m\<lparr>state := recording\<rparr>
      in p\<lparr>mediaRecorder := Some (length (recorders p)),
           recorders := recorders p @ [m],
           console := console p @ [''Recording...'']\<rparr>)"

subsection \<open>The event loop\<close>

text \<open>
  A handler of the script, called with the data of the event (a stop event has none,
  and \<open>sendAudio\<close> reads none).
\<close>

fun call_handler :: "handler option \<Rightarrow> byte list \<Rightarrow> page \<Rightarrow> page" where
  "call_handler None d p = p"
| "call_handler (Some push_chunk) d p = p\<lparr>chunks := chunks p @ [d]\<rparr>"
| "call_handler (Some send_audio) d p = sendAudio_start p"

text \<open>
  The tasks the browser runs: a click on the button; the stream granted or denied to
  a suspended click handler; a chunk delivered by a recorder; the stop event of
  a recorder; an exchange settled.
\<close>

datatype event =
    Click
  | StreamGranted
  | StreamDenied
  | DataAvailable nat "byte list"
  | Stopped nat
  | FetchSettled fetch_result

fun step :: "event \<Rightarrow> page \<Rightarrow> page" where
  "step Click p = onclick p"
| "step StreamGranted p =
     (if acquiring p = 0 then p else onclick_resume (p\<lparr>acquiring := acquiring p - 1\<rparr>))"
| "step StreamDenied p =
     (if acquiring p = 0 then p
      else p\<lparr>acquiring := acquiring p - 1, unhandled := unhandled p @ [NotAllowedError]\<rparr>)"
| "step (DataAvailable r d) p =
     (if length (recorders p) \<le> r then p
      else call_handler (ondataavailable (recorders p ! r)) d p)"
| "step (Stopped r) p =
     (if length (recorders p) \<le> r then p
      else let m = recorders p ! r
           in if stop_queued m = 0 then p
              else call_handler (onstop m) []
                     (p\<lparr>recorders := (recorders p)[r := m\<lparr>stop_queued := stop_queued m - 1\<rparr>]\<rparr>))"
| "step (FetchSettled res) p =
     (if awaiting_response p = 0 then p
      else sendAudio_resume res (p\<lparr>awaiting_response := awaiting_response p - 1\<rparr>))"

fun run :: "event list \<Rightarrow> page \<Rightarrow> page" where
  "run [] p = p"
| "run (e # es) p = run es (step e p)"

text \<open>The recorders that are capturing.\<close>

definition active_handles :: "page \<Rightarrow> nat" where
  "active_handles p = length (filter (\<lambda>m. state m \<noteq> inactive) (recorders p))"

definition capture_active :: "page \<Rightarrow> bool" where
  "capture_active p =
     (case mediaRecorder p of
        None \<Rightarrow> False
      | Some r \<Rightarrow> r < length (recorders p) \<and> state (recorders p ! r) \<noteq> inactive)"

text \<open>
  One record-then-upload cycle on the recorder that will be the \<open>r\<close>-th: the click and
  the stream, the chunks, the click that stops and the stop event.
\<close>

definition session :: "nat \<Rightarrow> byte list list \<Rightarrow> event list" where
  "session r cs = [Click, StreamGranted] @ map (DataAvailable r) cs @ [Click, Stopped r]"

text \<open>
  A cycle in the order of the browser as well: chunks may arrive while the recorder
  captures and, once \<^verbatim>\<open>stop()\<close> is called, while the browser flushes what is left, before
  the stop event. A recorder started without a time slice, as line 12 starts it,
  delivers its one chunk there.
\<close>

definition flushed_session :: "nat \<Rightarrow> byte list list \<Rightarrow> byte list list \<Rightarrow> event list" where
  "flushed_session r before after =
     [Click, StreamGranted] @ map (DataAvailable r) before @ [Click] @
     map (DataAvailable r) after @ [Stopped r]"

text \<open>
  The chunks that a run of the event loop delivers, in the order of delivery: the data
  of the \<open>dataavailable\<close> events of the recorders that exist.
\<close>

fun delivered :: "event list \<Rightarrow> page \<Rightarrow> byte list list" where
  "delivered [] p = []"
| "delivered (e # es) p =
     (case e of
        DataAvailable r d \<Rightarrow> if r < length (recorders p) then [d] else []
      | _ \<Rightarrow> []) @ delivered es (step e p)"

text \<open>The bytes that each request sent carries in its form.\<close>

definition payloads :: "page \<Rightarrow> byte list list" where
  "payloads p = map (\<lambda>q. concat (map (\<lambda>e. blob_bytes (entry_value e)) (req_body q))) (requests p)"

text \<open>The recorder that lines 7 to 12 leave behind.\<close>

definition new_recorder :: media_recorder where
  "new_recorder =
     \<lparr>state = recording, ondataavailable = Some push_chunk, onstop = Some send_audio,
      stop_queued = 0\<rparr>"

text \<open>
  The stop events queued and not fired yet, and the calls of \<^verbatim>\<open>stop()\<close> in a run of the
  event loop: the clicks that find the capture active.
\<close>

definition stops_pending :: "page \<Rightarrow> nat" where
  "stops_pending p = sum_list (map stop_queued (recorders p))"

fun stop_calls :: "event list \<Rightarrow> page \<Rightarrow> nat" where
  "stop_calls [] p = 0"
| "stop_calls (e # es) p =
     (if e = Click \<and> capture_active p then 1 else 0) + stop_calls es (step e p)"

text \<open>
  The pages the script keeps to: \<open>mediaRecorder\<close> refers to a recorder that was
  created, and every recorder has the handlers of lines 9 and 10.
\<close>

definition well_formed :: "page \<Rightarrow> bool" where
  "well_formed p =
     ((case mediaRecorder p of None \<Rightarrow> True | Some r \<Rightarrow> r < length (recorders p)) \<and>
      list_all (\<lambda>m. ondataavailable m = Some push_chunk \<and> onstop m = Some send_audio)
        (recorders p))"

text \<open>
  The runs of the event loop in which no click arrives while a click handler waits
  for the stream, and what the test of line 5 keeps true on them: at most one click
  handler waits, and a recorder that is not inactive is the one \<open>mediaRecorder\<close> refers
  to, with no click handler waiting.
\<close>

fun clicks_apart :: "event list \<Rightarrow> page \<Rightarrow> bool" where
  "clicks_apart [] p = True"
| "clicks_apart (e # es) p =
     ((if e = Click then acquiring p = 0 else True) \<and> clicks_apart es (step e p))"

definition one_capture :: "page \<Rightarrow> bool" where
  "one_capture p =
     (well_formed p \<and> acquiring p \<le> 1 \<and>
      (\<forall>i < length (recorders p). state (recorders p ! i) \<noteq> inactive \<longrightarrow>
         mediaRecorder p = Some i \<and> acquiring p = 0))"

section \<open>The words of the specification\<close>

text \<open>
  The encoding the response is expected in: two hexadecimal digits for each byte, the
  most significant nibble first, each digit in either case. \<open>up i\<close> tells whether the
  \<open>i\<close>-th digit of the string is an upper-case one.
\<close>

definition hex_digit :: "bool \<Rightarrow> nat \<Rightarrow> codeunit" where
  "hex_digit upper n =
     (if n < 10 then of_nat (0x30 + n)
      else if upper then of_nat (0x41 + (n - 10))
      else of_nat (0x61 + (n - 10)))"

fun hex_encode :: "(nat \<Rightarrow> bool) \<Rightarrow> byte list \<Rightarrow> jsstring" where
  "hex_encode up [] = []"
| "hex_encode up (b # bs) =
     hex_digit (up 0) (unat b div 16) # hex_digit (up 1) (unat b mod 16) #
     hex_encode (\<lambda>i. up (i + 2)) bs"

definition lowercase :: "nat \<Rightarrow> bool" where
  "lowercase i = False"

definition ascii :: "string \<Rightarrow> byte list" where
  "ascii s = map (\<lambda>c. of_nat (of_char c)) s"

text \<open>
  The decoding as the specification words it for input that is not all hexadecimal
  digits: the string cut into groups of two characters (a last group of one when the
  length is odd), each group read as the base-16 value of its longest leading run of
  hexadecimal digits, which is 0 when the run is empty.
\<close>

fun two_char_groups :: "jsstring \<Rightarrow> jsstring list" where
  "two_char_groups [] = []"
| "two_char_groups [c] = [[c]]"
| "two_char_groups (c # d # s) = [c, d] # two_char_groups s"




text \<open>The answer \<^verbatim>\<open>{"audio":""}\<close>.\<close>

definition empty_audio_response :: fetch_result where
  "empty_audio_response = Response (Json (JObject [(js ''audio'', JString [])]))"

text \<open>
  The parameters of the query of a URL: what follows the question mark, cut at the
  ampersands, each piece cut at its first equals sign.
\<close>

definition query_string :: "string \<Rightarrow> string" where
  "query_string url = drop 1 (dropWhile (\<lambda>c. c \<noteq> CHR ''?'') url)"

fun split_ampersand :: "string \<Rightarrow> string list" where
  "split_ampersand [] = [[]]"
| "split_ampersand (c # s) =
     (if c = CHR ''&'' then [] # split_ampersand s
      else (case split_ampersand s of [] \<Rightarrow> [[c]] | w # ws \<Rightarrow> (c # w) # ws))"

definition query_parameters :: "string \<Rightarrow> (string \<times> string) list" where
  "query_parameters url =
     map (\<lambda>kv. (takeWhile (\<lambda>c. c \<noteq> CHR ''='') kv, drop 1 (dropWhile (\<lambda>c. c \<noteq> CHR ''='') kv)))
       (split_ampersand (query_string url))"

text \<open>The request of the external interface: the endpoint, and the one part of the form.\<close>

definition endpoint :: string where
  "endpoint = ''http://localhost:8000/assistant?voice_id=your-id-here''"

definition audio_part :: "byte list \<Rightarrow> form_entry" where
  "audio_part payload =
     \<lparr>entry_name = ''audio'', entry_filename = ''audio.wav'',
      entry_value = \<lparr>blob_bytes = payload, blob_type = ''audio/wav''\<rparr>\<rparr>"

text \<open>
  The failing exchanges: the network fails, the body is not JSON, or the answer has no
  \<^verbatim>\<open>audio\<close> field.
\<close>

fun failing_exchange :: "fetch_result \<Rightarrow> bool" where
  "failing_exchange FetchFailed = True"
| "failing_exchange (Response NotJson) = True"
| "failing_exchange (Response (Json (JObject members))) = (js ''audio'' \<notin> set (map fst members))"
| "failing_exchange (Response (Json data)) = True"

section \<open>The decoder\<close>

lemma nibble_cases:
  assumes "n < (16::nat)"
  shows "n \<in> {0, 1, 2, 3, 4, 5, 6, 7, 8, 9, 10, 11, 12, 13, 14, 15}"
proof -
  have "n \<in> {..<16}" using assms by simp
  also have "{..<16::nat} = {0, 1, 2, 3, 4, 5, 6, 7, 8, 9, 10, 11, 12, 13, 14, 15}"
    by (simp add: lessThan_nat_numeral lessThan_Suc insert_commute)
  finally show ?thesis .
qed

lemma byte_nibble: "unat (b :: byte) div 16 < 16"
proof -
  have "unat b < 2 ^ 8" using unsigned_less [of b] by simp
  then show ?thesis by simp
qed

text \<open>A digit the encoder writes is read back by \<^verbatim>\<open>parseInt\<close> with its value.\<close>

lemma radix16_digit_hex_digit:
  assumes "n < 16"
  shows "radix16_digit (hex_digit u n) = Some n"
  using nibble_cases [OF assms]
  apply (elim insertE emptyE)
  apply (simp_all only:)
  apply (simp_all add: radix16_digit_def hex_digit_def)
  done

text \<open>A digit is no line terminator, no white space, no sign and no \<^verbatim>\<open>x\<close>.\<close>

lemma digit_plain:
  assumes "radix16_digit c = Some n"
  shows "\<not> isLineTerminator c" "\<not> isStrWhiteSpaceChar c"
    "c \<noteq> 0x2D" "c \<noteq> 0x2B" "c \<noteq> 0x78" "c \<noteq> 0x58"
proof -
  have r: "(48 \<le> unat c \<and> unat c \<le> 57) \<or> (97 \<le> unat c \<and> unat c \<le> 102) \<or>
      (65 \<le> unat c \<and> unat c \<le> 70)"
    using assms by (simp add: radix16_digit_def word_le_nat_alt split: if_splits)
  have e: "\<And>k. c = k \<longleftrightarrow> unat c = unat k" by (simp add: word_unat_eq_iff)
  show "\<not> isLineTerminator c" using r by (auto simp: isLineTerminator_def e)
  show "\<not> isStrWhiteSpaceChar c" using r
    by (auto simp: isStrWhiteSpaceChar_def isLineTerminator_def e word_le_nat_alt)
  show "c \<noteq> 0x2D" "c \<noteq> 0x2B" "c \<noteq> 0x78" "c \<noteq> 0x58" using r by (auto simp: e)
qed

lemmas hex_digit_plain = digit_plain [OF radix16_digit_hex_digit]

lemma parseInt16_pair:
  assumes "h < 16" "l < 16"
  shows "parseInt16 [hex_digit u h, hex_digit v l] = Some (int (16 * h + l))"
  using assms
  by (simp add: parseInt16_def hex_digit_plain isRadix16Digit_def digit_or_zero_def
      radix16_digit_hex_digit)

lemma parseInt16_single:
  assumes "l < 16"
  shows "parseInt16 [hex_digit v l] = Some (int l)"
  using assms
  by (simp add: parseInt16_def hex_digit_plain isRadix16Digit_def digit_or_zero_def
      radix16_digit_hex_digit)

lemma ToUint8_nibbles: "ToUint8 (Some (int (16 * (unat b div 16) + unat b mod 16))) = b"
  by (simp add: ToUint8_def)

lemma match_groups_hex_encode_Cons:
  "match_groups (hex_encode up (b # bs) @ t) =
     [hex_digit (up 0) (unat b div 16), hex_digit (up 1) (unat b mod 16)] #
     match_groups (hex_encode (\<lambda>i. up (i + 2)) bs @ t)"
proof -
  have h: "unat b div 16 < 16" by (rule byte_nibble)
  have l: "unat b mod 16 < 16" by simp
  show ?thesis by (simp add: hex_digit_plain [OF h] hex_digit_plain [OF l])
qed

lemma decode_pair:
  "ToUint8 (parseInt16 [hex_digit u (unat b div 16), hex_digit v (unat b mod 16)]) = b"
proof -
  have h: "unat b div 16 < 16" by (rule byte_nibble)
  have l: "unat b mod 16 < 16" by simp
  show ?thesis by (simp only: parseInt16_pair [OF h l] ToUint8_nibbles)
qed

lemma decode_groups_hex_encode:
  "map (\<lambda>g. ToUint8 (parseInt16 g)) (match_groups (hex_encode up B @ t)) =
     B @ map (\<lambda>g. ToUint8 (parseInt16 g)) (match_groups t)"
proof (induction B arbitrary: up)
  case Nil
  show ?case by simp
next
  case (Cons b bs)
  show ?case
    using Cons.IH [of "\<lambda>i. up (i + 2)"]
    by (simp only: match_groups_hex_encode_Cons list.map decode_pair append_Cons)
qed

lemma match_groups_hex_encode_nonempty:
  "B \<noteq> [] \<Longrightarrow> match_groups (hex_encode up B @ t) \<noteq> []"
proof (cases B)
  case Nil
  assume "B \<noteq> []"
  with Nil show ?thesis by simp
next
  case (Cons b bs)
  show ?thesis unfolding Cons match_groups_hex_encode_Cons by simp
qed

lemma decodeAudio_groups:
  "match_groups s \<noteq> [] \<Longrightarrow>
     decodeAudio s = Inr (map (\<lambda>g. ToUint8 (parseInt16 g)) (match_groups s))"
  by (cases "match_groups s") (simp_all add: decodeAudio_def String_match_def)

lemma decodeAudio_hello: "decodeAudio (js ''48656c6c6f'') = Inr (ascii ''Hello'')"
  by (simp add: decodeAudio_def String_match_def js_def isLineTerminator_def parseInt16_def
      isStrWhiteSpaceChar_def isRadix16Digit_def radix16_digit_def digit_or_zero_def
      ToUint8_def ascii_def)

lemma hex_encode_example: "hex_encode lowercase [0x0A, 0xFF, 0x01] = js ''0aff01''"
  by (simp add: hex_digit_def lowercase_def js_def)

text \<open>
  C1, as the code has it: every byte sequence but the empty one, written as two
  hexadecimal digits for each byte (most significant nibble first, each digit in either
  case), is decoded to itself by lines 30 to 32; the bytes \<open>0A FF 01\<close> are written
  \<^verbatim>\<open>0aff01\<close>, and \<^verbatim>\<open>48656c6c6f\<close> is decoded to the ASCII bytes of \<^verbatim>\<open>Hello\<close>.
\<close>

theorem hex_round_trip:
  "(B \<noteq> [] \<longrightarrow> decodeAudio (hex_encode up B) = Inr B) \<and>
   hex_encode lowercase [0x0A, 0xFF, 0x01] = js ''0aff01'' \<and>
   decodeAudio (js ''48656c6c6f'') = Inr (ascii ''Hello'')"
proof (intro conjI impI)
  assume B: "B \<noteq> []"
  have "match_groups (hex_encode up B) \<noteq> []"
    using match_groups_hex_encode_nonempty [OF B, of up "[]"] by simp
  then have "decodeAudio (hex_encode up B) =
      Inr (map (\<lambda>g. ToUint8 (parseInt16 g)) (match_groups (hex_encode up B)))"
    by (rule decodeAudio_groups)
  also have "\<dots> = Inr B"
    using decode_groups_hex_encode [of up B "[]"] by simp
  finally show "decodeAudio (hex_encode up B) = Inr B" .
next
  show "hex_encode lowercase [0x0A, 0xFF, 0x01] = js ''0aff01''"
    by (rule hex_encode_example)
next
  show "decodeAudio (js ''48656c6c6f'') = Inr (ascii ''Hello'')"
    by (rule decodeAudio_hello)
qed

theorem hex_round_trip_witness:
  "[0x0A, 0xFF, 0x01] \<noteq> ([] :: byte list) \<and>
   decodeAudio (hex_encode lowercase [0x0A, 0xFF, 0x01]) = Inr [0x0A, 0xFF, 0x01]"
  using conjunct1 [OF hex_round_trip [of "[0x0A, 0xFF, 0x01]" lowercase]]
  by (simp del: hex_encode.simps)

text \<open>
  C1 as it is written fails at the empty byte sequence: its encoding is the empty
  string, on which the match is \<^verbatim>\<open>null\<close> and \<^verbatim>\<open>map\<close> throws.
\<close>

theorem hex_round_trip_empty_counterexample:
  "hex_encode lowercase [] = [] \<and> decodeAudio (hex_encode lowercase []) = Inl TypeError \<and>
   decodeAudio (hex_encode lowercase []) \<noteq> Inr []"
  by (simp add: decodeAudio_def String_match_def)

text \<open>An odd number of digits: the pairs, and the last digit on its own.\<close>

lemma match_groups_odd_nonempty:
  assumes "n < 16"
  shows "match_groups (hex_encode up B @ [hex_digit u n]) \<noteq> []"
proof (cases B)
  case Nil
  then show ?thesis by (simp add: hex_digit_plain [OF assms])
next
  case (Cons b bs)
  then have "B \<noteq> []" by simp
  then show ?thesis by (rule match_groups_hex_encode_nonempty)
qed

text \<open>
  C5, as the code has it: a string of an odd number of hexadecimal digits is not
  rejected and not truncated. The pattern \<^verbatim>\<open>.{1,2}\<close> makes a group of the last digit
  alone, and the result is the bytes of the pairs followed by one more byte, the value
  of that digit.
\<close>

theorem odd_length_decodes_last_digit:
  assumes "n < 16"
  shows "decodeAudio (hex_encode up B @ [hex_digit u n]) = Inr (B @ [of_nat n])"
proof -
  have g: "match_groups [hex_digit u n] = [[hex_digit u n]]"
    by (simp add: hex_digit_plain [OF assms])
  have "decodeAudio (hex_encode up B @ [hex_digit u n]) =
      Inr (map (\<lambda>g. ToUint8 (parseInt16 g)) (match_groups (hex_encode up B @ [hex_digit u n])))"
    using match_groups_odd_nonempty [OF assms] by (rule decodeAudio_groups)
  also have "\<dots> = Inr (B @ [of_nat n])"
    by (simp only: decode_groups_hex_encode g list.map parseInt16_single [OF assms])
       (simp add: ToUint8_def)
  finally show ?thesis .
qed

theorem odd_length_decodes_last_digit_witness:
  "(15::nat) < 16 \<and>
   decodeAudio (hex_encode lowercase [0x0A] @ [hex_digit False 15]) = Inr ([0x0A] @ [of_nat 15])"
  using odd_length_decodes_last_digit [of 15 lowercase "[0x0A]" False]
  by (simp del: hex_encode.simps)

text \<open>
  C5 as it is written fails at \<^verbatim>\<open>0af\<close>: the decoding is no error and is not the
  truncated \<open>0A\<close>, it is \<open>0A 0F\<close>.
\<close>

theorem odd_length_counterexample:
  "js ''0af'' = hex_encode lowercase [0x0A] @ [hex_digit False 15] \<and>
   \<not> isl (decodeAudio (js ''0af'')) \<and> decodeAudio (js ''0af'') \<noteq> Inr [0x0A] \<and>
   decodeAudio (js ''0af'') = Inr [0x0A, 0x0F]"
  by (simp add: decodeAudio_def String_match_def js_def isLineTerminator_def parseInt16_def
      isStrWhiteSpaceChar_def isRadix16Digit_def radix16_digit_def digit_or_zero_def
      ToUint8_def hex_digit_def lowercase_def)

text \<open>
  C9: on the empty string the match is \<^verbatim>\<open>null\<close> and the decoding throws a
  \<^verbatim>\<open>TypeError\<close>; a run of \<open>sendAudio\<close> that is answered \<^verbatim>\<open>{"audio":""}\<close> ends in that
  rejection and leaves the source of the playback element as it was.
\<close>

theorem empty_audio_is_rejected:
  "decodeAudio [] = Inl TypeError \<and>
   responseAudio_src (sendAudio empty_audio_response p) = responseAudio_src p \<and>
   unhandled (sendAudio empty_audio_response p) = unhandled p @ [TypeError] \<and>
   responseAudio_src (step (FetchSettled empty_audio_response) p) = responseAudio_src p"
  by (simp add: decodeAudio_def String_match_def sendAudio_def sendAudio_resume_def
      sendAudio_settle_def decode_response_def empty_audio_response_def sendAudio_start_def)


lemma match_groups_plain:
  "\<forall>c \<in> set s. \<not> isLineTerminator c \<Longrightarrow> match_groups s = two_char_groups s"
  by (induction s rule: two_char_groups.induct) simp_all







lemma parseInt16_signed:
  assumes "radix16_digit c = Some v"
  shows "parseInt16 [0x2D, c] = Some (- int v)" "parseInt16 [0x2B, c] = Some (int v)"
  using assms digit_plain [OF assms]
  by (simp_all add: parseInt16_def isStrWhiteSpaceChar_def isLineTerminator_def
      isRadix16Digit_def digit_or_zero_def)





section \<open>The page\<close>

lemma list_all_update:
  "list_all P xs \<Longrightarrow> P x \<Longrightarrow> list_all P (xs[i := x])"
  using set_update_subset_insert [of xs i x] by (auto simp: list_all_iff)

lemma well_formed_initial: "well_formed initial_page"
  by (simp add: well_formed_def initial_page_def)

lemma well_formed_nth:
  "well_formed p \<Longrightarrow> r < length (recorders p) \<Longrightarrow>
     ondataavailable (recorders p ! r) = Some push_chunk \<and> onstop (recorders p ! r) = Some send_audio"
  by (simp add: well_formed_def list_all_length)

lemma well_formed_step: "well_formed p \<Longrightarrow> well_formed (step e p)"
proof (cases e)
  case Click
  assume "well_formed p"
  then show ?thesis unfolding Click
    by (auto simp: well_formed_def onclick_def MediaRecorder_stop_def Let_def list_all_length nth_list_update
        split: option.splits)
next
  case StreamGranted
  assume "well_formed p"
  then show ?thesis unfolding StreamGranted
    by (auto simp: well_formed_def onclick_resume_def Let_def split: option.splits)
next
  case StreamDenied
  assume "well_formed p"
  then show ?thesis unfolding StreamDenied
    by (auto simp: well_formed_def split: option.splits)
next
  case (DataAvailable r d)
  assume w: "well_formed p"
  show ?thesis
  proof (cases "length (recorders p) \<le> r")
    case True
    with w show ?thesis unfolding DataAvailable by simp
  next
    case False
    with well_formed_nth [OF w, of r] w show ?thesis unfolding DataAvailable
      by (auto simp: well_formed_def split: option.splits)
  qed
next
  case (Stopped r)
  assume w: "well_formed p"
  show ?thesis
  proof (cases "length (recorders p) \<le> r")
    case True
    with w show ?thesis unfolding Stopped by simp
  next
    case False
    with well_formed_nth [OF w, of r] w show ?thesis unfolding Stopped
      by (auto simp: well_formed_def Let_def sendAudio_start_def list_all_length nth_list_update
          split: option.splits)
  qed
next
  case (FetchSettled res)
  assume "well_formed p"
  then show ?thesis unfolding FetchSettled
    by (auto simp: well_formed_def sendAudio_resume_def split: sum.splits option.splits)
qed

lemma well_formed_run: "well_formed p \<Longrightarrow> well_formed (run es p)"
  by (induction es arbitrary: p) (simp_all add: well_formed_step)

lemma run_append: "run (es @ es') p = run es' (run es p)"
  by (induction es arbitrary: p) simp_all

lemma onclick_resume_eq:
  "onclick_resume p =
     p\<lparr>mediaRecorder := Some (length (recorders p)),
       recorders := recorders p @ [new_recorder],
       console := console p @ [''Recording...'']\<rparr>"
  by (simp add: onclick_resume_def new_recorder_def)

lemma onclick_idle:
  assumes "well_formed p" "\<not> capture_active p"
  shows "onclick p = p\<lparr>acquiring := Suc (acquiring p)\<rparr>"
  using assms
  by (auto simp: onclick_def capture_active_def well_formed_def split: option.splits)

lemma start_capture:
  assumes "well_formed p" "\<not> capture_active p"
  shows "run [Click, StreamGranted] p = onclick_resume p"
  using onclick_idle [OF assms] by (simp add: onclick_resume_eq)

lemma deliver_chunks:
  assumes "r < length (recorders p)" "ondataavailable (recorders p ! r) = Some push_chunk"
  shows "run (map (DataAvailable r) cs) p = p\<lparr>chunks := chunks p @ cs\<rparr>"
  using assms
proof (induction cs arbitrary: p)
  case Nil
  show ?case by simp
next
  case (Cons c cs)
  have s: "step (DataAvailable r c) p = p\<lparr>chunks := chunks p @ [c]\<rparr>"
    using Cons.prems by simp
  show ?case
    using Cons.IH [of "p\<lparr>chunks := chunks p @ [c]\<rparr>"] Cons.prems
    by (simp add: s)
qed

lemma stop_capture:
  assumes "mediaRecorder p = Some r" "r < length (recorders p)"
    "state (recorders p ! r) \<noteq> inactive"
  shows "step Click p =
     p\<lparr>recorders := (recorders p)[r := (recorders p ! r)
          \<lparr>state := inactive, stop_queued := Suc (stop_queued (recorders p ! r))\<rparr>]\<rparr>"
  using assms by (simp add: onclick_def MediaRecorder_stop_def Let_def)

lemma fire_stop:
  assumes "r < length (recorders p)" "onstop (recorders p ! r) = Some send_audio"
    "stop_queued (recorders p ! r) = Suc k"
  shows "step (Stopped r) p =
     p\<lparr>recorders := (recorders p)[r := (recorders p ! r)\<lparr>stop_queued := k\<rparr>],
       requests := requests p @ [upload_request (chunks p)],
       awaiting_response := Suc (awaiting_response p)\<rparr>"
  using assms by (simp add: Let_def sendAudio_start_def)

text \<open>One cycle from a page where nothing is captured and no click is suspended.\<close>

lemma session_run:
  assumes "well_formed p" "\<not> capture_active p"
  shows "run (session (length (recorders p)) cs) p =
     p\<lparr>mediaRecorder := Some (length (recorders p)),
       recorders := recorders p @ [new_recorder\<lparr>state := inactive\<rparr>],
       console := console p @ [''Recording...''],
       chunks := chunks p @ cs,
       requests := requests p @ [upload_request (chunks p @ cs)],
       awaiting_response := Suc (awaiting_response p)\<rparr>"
proof -
  let ?n = "length (recorders p)"
  let ?p1 = "onclick_resume p"
  let ?p2 = "?p1\<lparr>chunks := chunks p @ cs\<rparr>"
  have 1: "run [Click, StreamGranted] p = ?p1" using assms by (rule start_capture)
  have 2: "run (map (DataAvailable ?n) cs) ?p1 = ?p2"
    using deliver_chunks [of ?n ?p1 cs] by (simp add: onclick_resume_eq new_recorder_def)
  have 3: "step Click ?p2 = ?p2\<lparr>recorders := recorders p @ [new_recorder\<lparr>state := inactive, stop_queued := Suc 0\<rparr>]\<rparr>"
    using stop_capture [of ?p2 ?n] by (simp add: onclick_resume_eq new_recorder_def)
  have 4: "step (Stopped ?n) (step Click ?p2) =
      ?p2\<lparr>recorders := recorders p @ [new_recorder\<lparr>state := inactive\<rparr>],
         requests := requests p @ [upload_request (chunks p @ cs)],
         awaiting_response := Suc (awaiting_response p)\<rparr>"
    unfolding 3
    by (simp add: onclick_resume_eq new_recorder_def Let_def sendAudio_start_def)
  have "run (session ?n cs) p = step (Stopped ?n) (step Click (run (map (DataAvailable ?n) cs) (run [Click, StreamGranted] p)))"
    unfolding session_def run_append by simp
  then show ?thesis unfolding 1 2 4 by (simp add: onclick_resume_eq)
qed

text \<open>The same with chunks delivered before and after the call of \<^verbatim>\<open>stop()\<close>.\<close>

lemma flushed_session_run:
  assumes "well_formed p" "\<not> capture_active p"
  shows "run (flushed_session (length (recorders p)) bs as) p =
     p\<lparr>mediaRecorder := Some (length (recorders p)),
       recorders := recorders p @ [new_recorder\<lparr>state := inactive\<rparr>],
       console := console p @ [''Recording...''],
       chunks := chunks p @ bs @ as,
       requests := requests p @ [upload_request (chunks p @ bs @ as)],
       awaiting_response := Suc (awaiting_response p)\<rparr>"
proof -
  let ?n = "length (recorders p)"
  let ?p1 = "onclick_resume p"
  let ?p2 = "?p1\<lparr>chunks := chunks p @ bs\<rparr>"
  let ?p3 = "?p2\<lparr>recorders := recorders p @ [new_recorder\<lparr>state := inactive, stop_queued := Suc 0\<rparr>]\<rparr>"
  let ?p4 = "?p3\<lparr>chunks := chunks p @ bs @ as\<rparr>"
  have 1: "run [Click, StreamGranted] p = ?p1" using assms by (rule start_capture)
  have 2: "run (map (DataAvailable ?n) bs) ?p1 = ?p2"
    using deliver_chunks [of ?n ?p1 bs] by (simp add: onclick_resume_eq new_recorder_def)
  have 3: "step Click ?p2 = ?p3"
    using stop_capture [of ?p2 ?n] by (simp add: onclick_resume_eq new_recorder_def)
  have 4: "run (map (DataAvailable ?n) as) ?p3 = ?p4"
    using deliver_chunks [of ?n ?p3 as] by (simp add: onclick_resume_eq new_recorder_def)
  have 5: "step (Stopped ?n) ?p4 =
      ?p4\<lparr>recorders := recorders p @ [new_recorder\<lparr>state := inactive\<rparr>],
         requests := requests p @ [upload_request (chunks p @ bs @ as)],
         awaiting_response := Suc (awaiting_response p)\<rparr>"
    by (simp add: onclick_resume_eq new_recorder_def Let_def sendAudio_start_def)
  have "run (flushed_session ?n bs as) p =
      step (Stopped ?n) (run (map (DataAvailable ?n) as) (step Click
        (run (map (DataAvailable ?n) bs) (run [Click, StreamGranted] p))))"
    unfolding flushed_session_def run_append by simp
  then show ?thesis unfolding 1 2 3 4 5 by (simp add: onclick_resume_eq)
qed

lemma flushed_session_facts:
  assumes "well_formed p" "\<not> capture_active p"
  shows "requests (run (flushed_session (length (recorders p)) bs as) p) =
      requests p @ [upload_request (chunks p @ bs @ as)]"
    "chunks (run (flushed_session (length (recorders p)) bs as) p) = chunks p @ bs @ as"
    "length (recorders (run (flushed_session (length (recorders p)) bs as) p)) =
      Suc (length (recorders p))"
    "\<not> capture_active (run (flushed_session (length (recorders p)) bs as) p)"
  unfolding flushed_session_run [OF assms]
  by (simp_all add: capture_active_def new_recorder_def)

text \<open>Nothing removes a chunk from the buffer.\<close>

lemma chunks_call_handler: "\<exists>ys. chunks (call_handler h d p) = chunks p @ ys"
  by (cases "(h, d, p)" rule: call_handler.cases) (simp_all add: sendAudio_start_def)

lemma chunks_step: "\<exists>ys. chunks (step e p) = chunks p @ ys"
proof (cases e)
  case (DataAvailable r d)
  show ?thesis unfolding DataAvailable
    using chunks_call_handler [of "ondataavailable (recorders p ! r)" d p] by simp
next
  case (Stopped r)
  let ?q = "p\<lparr>recorders := (recorders p)[r := (recorders p ! r)
      \<lparr>stop_queued := stop_queued (recorders p ! r) - 1\<rparr>]\<rparr>"
  show ?thesis unfolding Stopped
    using chunks_call_handler [of "onstop (recorders p ! r)" "[]" ?q] by (simp add: Let_def)
qed (auto simp: onclick_def MediaRecorder_stop_def Let_def onclick_resume_eq sendAudio_resume_def
      split: option.splits sum.splits)

lemma chunks_run: "\<exists>ys. chunks (run es p) = chunks p @ ys"
proof (induction es arbitrary: p)
  case Nil
  show ?case by simp
next
  case (Cons e es)
  from chunks_step [of e p] obtain ys where 1: "chunks (step e p) = chunks p @ ys" ..
  from Cons.IH [of "step e p"] obtain zs where "chunks (run es (step e p)) = chunks (step e p) @ zs" ..
  with 1 show ?case by simp
qed


text \<open>Every chunk a recorder delivers is appended, whatever the state of the recorder.\<close>

lemma deliver_one:
  assumes "well_formed p" "r < length (recorders p)"
  shows "step (DataAvailable r d) p = p\<lparr>chunks := chunks p @ [d]\<rparr>"
  using well_formed_nth [OF assms] assms(2) by simp

lemma chunks_step_delivered:
  assumes "well_formed p"
  shows "chunks (step e p) = chunks p @ delivered [e] p"
proof (cases e)
  case (DataAvailable r d)
  show ?thesis
  proof (cases "r < length (recorders p)")
    case True
    show ?thesis unfolding DataAvailable deliver_one [OF assms True] using True by simp
  next
    case False
    then show ?thesis unfolding DataAvailable by simp
  qed
next
  case (Stopped r)
  show ?thesis
  proof (cases "r < length (recorders p) \<and> stop_queued (recorders p ! r) \<noteq> 0")
    case False
    then show ?thesis unfolding Stopped by (auto simp: Let_def)
  next
    case True
    then obtain k where k: "stop_queued (recorders p ! r) = Suc k"
      by (cases "stop_queued (recorders p ! r)") auto
    from True have r: "r < length (recorders p)" by simp
    show ?thesis unfolding Stopped fire_stop [OF r conjunct2 [OF well_formed_nth [OF assms r]] k]
      by simp
  qed
qed (auto simp: onclick_def MediaRecorder_stop_def Let_def onclick_resume_eq sendAudio_resume_def
      split: option.splits sum.splits)

lemma chunks_run_delivered:
  "well_formed p \<Longrightarrow> chunks (run es p) = chunks p @ delivered es p"
proof (induction es arbitrary: p)
  case Nil
  show ?case by simp
next
  case (Cons e es)
  from Cons.IH [OF well_formed_step [OF Cons.prems, of e]] chunks_step_delivered [OF Cons.prems, of e]
  show ?case by simp
qed

text \<open>The requests sent and the stop events still queued add up to the calls of \<^verbatim>\<open>stop()\<close>.\<close>

lemma sum_list_map_update:
  "r < length xs \<Longrightarrow>
     sum_list (map f (xs[r := y])) + f (xs ! r) = sum_list (map f xs) + (f y :: nat)"
proof (induction xs arbitrary: r)
  case Nil
  then show ?case by simp
next
  case (Cons x xs)
  show ?case
  proof (cases r)
    case 0
    then show ?thesis by simp
  next
    case (Suc k)
    with Cons.prems have "k < length xs" by simp
    from Cons.IH [OF this] show ?thesis unfolding Suc by simp
  qed
qed

lemma uploads_step:
  assumes "well_formed p"
  shows "length (requests (step e p)) + stops_pending (step e p) =
     length (requests p) + stops_pending p + (if e = Click \<and> capture_active p then 1 else 0)"
proof (cases e)
  case Click
  show ?thesis
  proof (cases "capture_active p")
    case True
    then obtain r where r: "mediaRecorder p = Some r" "r < length (recorders p)"
      "state (recorders p ! r) \<noteq> inactive"
      by (auto simp: capture_active_def split: option.splits)
    show ?thesis unfolding Click stop_capture [OF r]
      using sum_list_map_update [OF r(2), of stop_queued
          "(recorders p ! r)\<lparr>state := inactive, stop_queued := Suc (stop_queued (recorders p ! r))\<rparr>"]
        True
      by (simp add: stops_pending_def)
  next
    case False
    show ?thesis unfolding Click using onclick_idle [OF assms False] False by (simp add: stops_pending_def)
  qed
next
  case StreamGranted
  show ?thesis unfolding StreamGranted by (simp add: onclick_resume_eq stops_pending_def new_recorder_def)
next
  case StreamDenied
  show ?thesis unfolding StreamDenied by (simp add: stops_pending_def)
next
  case (DataAvailable r d)
  show ?thesis unfolding DataAvailable
    using well_formed_nth [OF assms, of r] by (simp add: stops_pending_def)
next
  case (Stopped r)
  show ?thesis
  proof (cases "r < length (recorders p) \<and> stop_queued (recorders p ! r) \<noteq> 0")
    case False
    then show ?thesis unfolding Stopped by (auto simp: Let_def)
  next
    case True
    then obtain k where k: "stop_queued (recorders p ! r) = Suc k" by (cases "stop_queued (recorders p ! r)") auto
    from True have r: "r < length (recorders p)" by simp
    show ?thesis unfolding Stopped fire_stop [OF r conjunct2 [OF well_formed_nth [OF assms r]] k]
      using sum_list_map_update [OF r, of stop_queued "(recorders p ! r)\<lparr>stop_queued := k\<rparr>"] k
      by (simp add: stops_pending_def)
  qed
next
  case (FetchSettled res)
  show ?thesis unfolding FetchSettled
    by (simp add: sendAudio_resume_def stops_pending_def split: sum.splits)
qed

lemma uploads_run:
  "well_formed p \<Longrightarrow>
     length (requests (run es p)) + stops_pending (run es p) =
     length (requests p) + stops_pending p + stop_calls es p"
proof (induction es arbitrary: p)
  case Nil
  show ?case by simp
next
  case (Cons e es)
  from Cons.IH [OF well_formed_step [OF Cons.prems, of e]] uploads_step [OF Cons.prems, of e]
  show ?case by simp
qed

section \<open>Upload, toggle and sessions\<close>

lemma upload_request_shape:
  "upload_request cs = \<lparr>req_url = endpoint, req_method = ''POST'', req_body = [audio_part (concat cs)]\<rparr>"
  by (simp add: upload_request_def Blob_def form_append_def endpoint_def audio_part_def)

lemma endpoint_query: "query_parameters endpoint = [(''voice_id'', ''your-id-here'')]"
  by (simp add: query_parameters_def query_string_def endpoint_def)

lemma payloads_snoc:
  "payloads (p\<lparr>requests := requests p @ [upload_request cs]\<rparr>) = payloads p @ [concat cs]"
  by (simp add: payloads_def upload_request_shape audio_part_def)

text \<open>
  C7: a run of \<open>sendAudio\<close> sends one request, before the answer and none after it: a
  POST to the fixed endpoint, whose query has the one parameter \<^verbatim>\<open>voice_id\<close>, with a form
  of exactly one part, named \<^verbatim>\<open>audio\<close>, with the file name \<^verbatim>\<open>audio.wav\<close>, the type
  \<^verbatim>\<open>audio/wav\<close> and the chunks of the buffer one after the other as its bytes. After a
  start, chunks of 100 and 200 bytes and a stop, one request has left, with an audio
  part of 300 bytes.
\<close>

theorem request_shape:
  "requests (sendAudio_start p) = requests p @ [upload_request (chunks p)] \<and>
   requests (sendAudio_resume res q) = requests q \<and>
   requests (sendAudio res p) = requests p @ [upload_request (chunks p)] \<and>
   req_method (upload_request cs) = ''POST'' \<and>
   req_url (upload_request cs) = endpoint \<and>
   map fst (query_parameters endpoint) = [''voice_id''] \<and>
   req_body (upload_request cs) = [audio_part (concat cs)] \<and>
   (length c1 = 100 \<and> length c2 = 200 \<longrightarrow>
      map (map (\<lambda>e. (entry_name e, entry_filename e, length (blob_bytes (entry_value e)))) \<circ> req_body)
        (requests (run (session 0 [c1, c2]) initial_page)) = [[(''audio'', ''audio.wav'', 300)]])"
proof -
  have s: "run (session 0 [c1, c2]) initial_page =
      run (session (length (recorders initial_page)) [c1, c2]) initial_page"
    by (simp add: initial_page_def)
  have i: "\<not> capture_active initial_page" by (simp add: capture_active_def initial_page_def)
  have "requests (run (session 0 [c1, c2]) initial_page) = [upload_request [c1, c2]]"
    unfolding s session_run [OF well_formed_initial i] by (simp add: initial_page_def)
  then show ?thesis
    by (simp add: sendAudio_start_def sendAudio_resume_def sendAudio_def upload_request_shape
        endpoint_query audio_part_def split: sum.splits)
qed

theorem request_shape_witness:
  "length (replicate 100 (0::byte)) = 100 \<and> length (replicate 200 (1::byte)) = 200 \<and>
   map (map (\<lambda>e. (entry_name e, entry_filename e, length (blob_bytes (entry_value e)))) \<circ> req_body)
     (requests (run (session 0 [replicate 100 0, replicate 200 1]) initial_page)) =
   [[(''audio'', ''audio.wav'', 300)]]"
  using request_shape [of initial_page FetchFailed initial_page "[]" "replicate 100 0" "replicate 200 1"]
  by simp

lemma settle_failing:
  "failing_exchange res \<Longrightarrow> \<exists>e. sendAudio_settle res = Inl e"
proof (cases res rule: failing_exchange.cases)
  case (3 members)
  assume "failing_exchange res"
  with 3 have "map_of (rev members) (js ''audio'') = None"
    by (simp add: map_of_eq_None_iff)
  with 3 show ?thesis by (simp add: sendAudio_settle_def decode_response_def)
qed (simp_all add: sendAudio_settle_def decode_response_def)

text \<open>An answer whose \<^verbatim>\<open>audio\<close> string decodes is played: its bytes are the new source.\<close>

lemma decoded_audio_is_source:
  assumes "decodeAudio s = Inr audioBytes"
  shows "sendAudio_resume (Response (Json (JObject [(js ''audio'', JString s)]))) p =
     p\<lparr>responseAudio_src := Some \<lparr>blob_bytes = audioBytes, blob_type = ''audio/wav''\<rparr>\<rparr>"
  using assms
  by (simp add: sendAudio_resume_def sendAudio_settle_def decode_response_def Blob_def)

lemma hello_is_source:
  "responseAudio_src
     (sendAudio (Response (Json (JObject [(js ''audio'', JString (js ''48656c6c6f''))]))) p) =
   Some \<lparr>blob_bytes = ascii ''Hello'', blob_type = ''audio/wav''\<rparr>"
  by (simp add: sendAudio_def Let_def decoded_audio_is_source [OF decodeAudio_hello])

text \<open>
  C8: when the exchange fails (the network, a body that is not JSON, an answer with no
  \<^verbatim>\<open>audio\<close> field), the run of \<open>sendAudio\<close> ends in one rejection that nothing handles,
  and the source of the playback element is what it was.
\<close>

theorem failures_propagate:
  assumes "failing_exchange res"
  shows "(\<exists>e. unhandled (sendAudio res p) = unhandled p @ [e]) \<and>
     responseAudio_src (sendAudio res p) = responseAudio_src p \<and>
     responseAudio_src (step (FetchSettled res) p) = responseAudio_src p \<and>
     (0 < awaiting_response p \<longrightarrow> (\<exists>e. unhandled (step (FetchSettled res) p) = unhandled p @ [e]))"
proof -
  from settle_failing [OF assms] obtain e where "sendAudio_settle res = Inl e" ..
  then show ?thesis
    by (simp add: sendAudio_def sendAudio_resume_def sendAudio_start_def)
qed

theorem failures_propagate_witness:
  "failing_exchange (Response (Json (JObject [(js ''text'', JString (js ''hi''))]))) \<and>
   unhandled (sendAudio (Response (Json (JObject [(js ''text'', JString (js ''hi''))]))) initial_page) =
     [TypeError] \<and>
   responseAudio_src (sendAudio (Response (Json (JObject [(js ''text'', JString (js ''hi''))]))) initial_page) =
     None"
proof -
  let ?res = "Response (Json (JObject [(js ''text'', JString (js ''hi''))]))"
  have f: "failing_exchange ?res" by (simp add: js_def)
  have u: "unhandled (sendAudio ?res initial_page) = [TypeError]"
    by (simp add: sendAudio_def sendAudio_resume_def sendAudio_settle_def decode_response_def
        sendAudio_start_def initial_page_def js_def)
  from failures_propagate [OF f, of initial_page]
  have "responseAudio_src (sendAudio ?res initial_page) = responseAudio_src initial_page" by blast
  with f u show ?thesis by (simp add: initial_page_def)
qed

text \<open>Clicks that do not overlap a pending stream keep the captures to one.\<close>

lemma filter_at_most_one:
  "(\<forall>i < length xs. P (xs ! i) \<longrightarrow> i = k) \<Longrightarrow> length (filter P xs) \<le> 1"
proof (induction xs arbitrary: k)
  case Nil
  show ?case by simp
next
  case (Cons x xs)
  show ?case
  proof (cases "P x")
    case True
    with Cons.prems have k: "k = 0" by auto
    have "\<not> P (xs ! i)" if "i < length xs" for i
      using Cons.prems [rule_format, of "Suc i"] that k by auto
    then have "filter P xs = []" by (auto simp: filter_empty_conv in_set_conv_nth)
    with True show ?thesis by simp
  next
    case False
    have "\<forall>i < length xs. P (xs ! i) \<longrightarrow> i = k - 1"
      using Cons.prems by (auto dest: spec [of _ "Suc _"])
    from Cons.IH [OF this] False show ?thesis by simp
  qed
qed

lemma one_capture_active: "one_capture p \<Longrightarrow> active_handles p \<le> 1"
proof -
  assume o: "one_capture p"
  show ?thesis
  proof (cases "mediaRecorder p")
    case None
    with o have "\<forall>i < length (recorders p). state (recorders p ! i) \<noteq> inactive \<longrightarrow> i = 0"
      by (auto simp: one_capture_def)
    then show ?thesis unfolding active_handles_def by (rule filter_at_most_one)
  next
    case (Some r)
    with o have "\<forall>i < length (recorders p). state (recorders p ! i) \<noteq> inactive \<longrightarrow> i = r"
      by (auto simp: one_capture_def)
    then show ?thesis unfolding active_handles_def by (rule filter_at_most_one)
  qed
qed



lemma one_captureI:
  assumes "well_formed p" "acquiring p \<le> 1"
    "\<And>i. i < length (recorders p) \<Longrightarrow> state (recorders p ! i) \<noteq> inactive \<Longrightarrow>
       mediaRecorder p = Some i \<and> acquiring p = 0"
  shows "one_capture p"
  using assms unfolding one_capture_def by blast

lemma one_captureD:
  assumes "one_capture p"
  shows "well_formed p" "acquiring p \<le> 1"
    "i < length (recorders p) \<Longrightarrow> state (recorders p ! i) \<noteq> inactive \<Longrightarrow>
       mediaRecorder p = Some i \<and> acquiring p = 0"
  using assms unfolding one_capture_def by blast+

lemma one_capture_click:
  assumes o: "one_capture p" and a: "acquiring p = 0"
  shows "one_capture (step Click p)"
proof (cases "capture_active p")
  case False
  have s: "step Click p = p\<lparr>acquiring := Suc (acquiring p)\<rparr>"
    using onclick_idle [OF one_captureD(1) [OF o] False] by simp
  have n: "state (recorders p ! i) = inactive" if "i < length (recorders p)" for i
  proof (rule ccontr)
    assume "state (recorders p ! i) \<noteq> inactive"
    with one_captureD(3) [OF o that] that have "capture_active p"
      by (simp add: capture_active_def)
    with False show False ..
  qed
  show ?thesis unfolding s
  proof (rule one_captureI)
    show "well_formed (p\<lparr>acquiring := Suc (acquiring p)\<rparr>)"
      using well_formed_step [OF one_captureD(1) [OF o], of Click] s by simp
    show "acquiring (p\<lparr>acquiring := Suc (acquiring p)\<rparr>) \<le> 1" using a by simp
  next
    fix i
    assume "i < length (recorders (p\<lparr>acquiring := Suc (acquiring p)\<rparr>))"
      "state (recorders (p\<lparr>acquiring := Suc (acquiring p)\<rparr>) ! i) \<noteq> inactive"
    with n [of i] show "mediaRecorder (p\<lparr>acquiring := Suc (acquiring p)\<rparr>) = Some i \<and>
        acquiring (p\<lparr>acquiring := Suc (acquiring p)\<rparr>) = 0"
      by simp
  qed
next
  case True
  then obtain r where r: "mediaRecorder p = Some r" "r < length (recorders p)"
    "state (recorders p ! r) \<noteq> inactive"
    by (auto simp: capture_active_def split: option.splits)
  let ?m = "(recorders p ! r)\<lparr>state := inactive, stop_queued := Suc (stop_queued (recorders p ! r))\<rparr>"
  let ?q = "p\<lparr>recorders := (recorders p)[r := ?m]\<rparr>"
  have s: "step Click p = ?q" by (rule stop_capture [OF r])
  show ?thesis unfolding s
  proof (rule one_captureI)
    show "well_formed ?q" using well_formed_step [OF one_captureD(1) [OF o], of Click] s by simp
    show "acquiring ?q \<le> 1" using a by simp
  next
    fix i
    assume i: "i < length (recorders ?q)" "state (recorders ?q ! i) \<noteq> inactive"
    then have "i \<noteq> r" using r(2) by (auto simp: nth_list_update)
    with i have "i < length (recorders p)" "state (recorders p ! i) \<noteq> inactive" by simp_all
    from one_captureD(3) [OF o this] r(1) \<open>i \<noteq> r\<close> show "mediaRecorder ?q = Some i \<and> acquiring ?q = 0"
      by simp
  qed
qed


lemma one_capture_granted:
  assumes o: "one_capture p"
  shows "one_capture (step StreamGranted p)"
proof (cases "acquiring p = 0")
  case True
  with o show ?thesis by simp
next
  case False
  with one_captureD(2) [OF o] have a: "acquiring p = 1" by simp
  have n: "state (recorders p ! i) = inactive" if "i < length (recorders p)" for i
  proof (rule ccontr)
    assume "state (recorders p ! i) \<noteq> inactive"
    with one_captureD(3) [OF o that] a show False by simp
  qed
  let ?q = "p\<lparr>acquiring := 0, mediaRecorder := Some (length (recorders p)),
      recorders := recorders p @ [new_recorder], console := console p @ [''Recording...'']\<rparr>"
  have s: "step StreamGranted p = ?q" using a by (simp add: onclick_resume_eq)
  show ?thesis unfolding s
  proof (rule one_captureI)
    show "well_formed ?q" using well_formed_step [OF one_captureD(1) [OF o], of StreamGranted] s by simp
    show "acquiring ?q \<le> 1" by simp
  next
    fix i
    assume i: "i < length (recorders ?q)" "state (recorders ?q ! i) \<noteq> inactive"
    have "i = length (recorders p)"
    proof (rule ccontr)
      assume "i \<noteq> length (recorders p)"
      with i(1) have l: "i < length (recorders p)" by simp
      with i(2) n [OF l] show False by (simp add: nth_append)
    qed
    then show "mediaRecorder ?q = Some i \<and> acquiring ?q = 0" by simp
  qed
qed

lemma one_capture_same_recorders:
  assumes o: "one_capture p" and w: "well_formed q"
    and "mediaRecorder q = mediaRecorder p" "acquiring q \<le> acquiring p"
    "map state (recorders q) = map state (recorders p)"
  shows "one_capture q"
proof (rule one_captureI [OF w])
  show "acquiring q \<le> 1" using one_captureD(2) [OF o] assms(4) by simp
next
  fix i
  assume i: "i < length (recorders q)" "state (recorders q ! i) \<noteq> inactive"
  have l: "length (recorders q) = length (recorders p)"
    using arg_cong [OF assms(5), of length] by simp
  have "state (recorders q ! i) = state (recorders p ! i)"
    using arg_cong [OF assms(5), of "\<lambda>xs. xs ! i"] i(1) l by simp
  with i l have "i < length (recorders p)" "state (recorders p ! i) \<noteq> inactive" by simp_all
  from one_captureD(3) [OF o this] assms(3,4) show "mediaRecorder q = Some i \<and> acquiring q = 0"
    by simp
qed

lemma map_update_same: "(map f xs)[r := f (xs ! r)] = map f xs"
proof -
  have "(map f xs)[r := f (xs ! r)] = map f (xs[r := xs ! r])" by (simp only: map_update)
  then show ?thesis by simp
qed

lemma call_handler_keeps:
  "mediaRecorder (call_handler h d p) = mediaRecorder p \<and>
   acquiring (call_handler h d p) = acquiring p \<and>
   recorders (call_handler h d p) = recorders p"
  by (cases "(h, d, p)" rule: call_handler.cases) (simp_all add: sendAudio_start_def)

lemma one_capture_step:
  assumes o: "one_capture p" and c: "e = Click \<Longrightarrow> acquiring p = 0"
  shows "one_capture (step e p)"
proof (cases e)
  case Click
  with o c show ?thesis by (simp only: one_capture_click)
next
  case StreamGranted
  with o show ?thesis by (simp only: one_capture_granted)
next
  case StreamDenied
  show ?thesis unfolding StreamDenied
    by (rule one_capture_same_recorders [OF o well_formed_step [OF one_captureD(1) [OF o]]]) simp_all
next
  case (DataAvailable r d)
  show ?thesis unfolding DataAvailable
    by (rule one_capture_same_recorders [OF o well_formed_step [OF one_captureD(1) [OF o]]])
       (simp_all add: call_handler_keeps)
next
  case (Stopped r)
  show ?thesis unfolding Stopped
    by (rule one_capture_same_recorders [OF o well_formed_step [OF one_captureD(1) [OF o]]])
       (simp_all add: call_handler_keeps Let_def map_update map_update_same)
next
  case (FetchSettled res)
  show ?thesis unfolding FetchSettled
    by (rule one_capture_same_recorders [OF o well_formed_step [OF one_captureD(1) [OF o]]])
       (simp_all add: sendAudio_resume_def split: sum.splits)
qed

lemma one_capture_run:
  "one_capture p \<Longrightarrow> clicks_apart es p \<Longrightarrow> one_capture (run es p)"
proof (induction es arbitrary: p)
  case Nil
  then show ?case by simp
next
  case (Cons e es)
  have "one_capture (step e p)"
  proof (rule one_capture_step [OF Cons.prems(1)])
    assume "e = Click"
    with Cons.prems(2) show "acquiring p = 0" by simp
  qed
  with Cons.IH [of "step e p"] Cons.prems(2) show ?case by simp
qed

lemma one_capture_initial: "one_capture initial_page"
  by (rule one_captureI [OF well_formed_initial]) (simp_all add: initial_page_def)

lemma at_most_one_active_clicks_apart:
  "clicks_apart es initial_page \<Longrightarrow> active_handles (run es initial_page) \<le> 1"
  by (rule one_capture_active [OF one_capture_run [OF one_capture_initial]])

text \<open>
  C6 fails on the code: a second click while the first one waits for the stream passes
  the test of line 5 as well, each of the two runs creates and starts a recorder, and
  two recorders are capturing at once, the first one out of reach of \<open>mediaRecorder\<close>.
\<close>

theorem double_click_two_active:
  "active_handles (run [Click, Click, StreamGranted, StreamGranted] initial_page) = 2 \<and>
   map state (recorders (run [Click, Click, StreamGranted, StreamGranted] initial_page)) =
     [recording, recording] \<and>
   mediaRecorder (run [Click, Click, StreamGranted, StreamGranted] initial_page) = Some 1"
  by (simp add: active_handles_def initial_page_def onclick_def onclick_resume_def)

lemma initial_page_facts:
  "length (recorders initial_page) = 0" "payloads initial_page = []" "chunks initial_page = []"
  "requests initial_page = []"
  by (simp_all add: initial_page_def payloads_def)

lemma payloads_requests:
  "requests q = requests p @ [upload_request cs] \<Longrightarrow> payloads q = payloads p @ [concat cs]"
  by (simp add: payloads_def upload_request_shape audio_part_def)

text \<open>
  C2: from any page the event loop can reach in which the buffer is empty and nothing
  is being captured, a session whose recorder delivers the chunks \<open>bs\<close> while it
  captures and the chunks \<open>as\<close> between the call of \<^verbatim>\<open>stop()\<close> and the stop event ends
  with one more request, whose audio part is all of them one after the other in the
  order of delivery.
\<close>

theorem session_payload:
  assumes "p = run es initial_page" "\<not> capture_active p" "chunks p = []"
  shows "requests (run (flushed_session (length (recorders p)) bs as) p) =
       requests p @ [upload_request (bs @ as)] \<and>
     req_body (upload_request (bs @ as)) = [audio_part (concat (bs @ as))] \<and>
     payloads (run (flushed_session (length (recorders p)) bs as) p) =
       payloads p @ [concat (bs @ as)] \<and>
     flushed_session (length (recorders p)) bs [] = session (length (recorders p)) bs"
proof -
  have w: "well_formed p" unfolding assms(1) by (rule well_formed_run [OF well_formed_initial])
  have r: "requests (run (flushed_session (length (recorders p)) bs as) p) =
      requests p @ [upload_request (bs @ as)]"
    using flushed_session_facts(1) [OF w assms(2), of bs as] assms(3) by simp
  from r payloads_requests [OF r] show ?thesis
    by (simp add: upload_request_shape flushed_session_def session_def)
qed

theorem session_payload_witness:
  "\<not> capture_active (run [] initial_page) \<and> chunks (run [] initial_page) = [] \<and>
   payloads (run (flushed_session 0 [[1, 2], [3]] [[4]]) initial_page) = [[1, 2, 3, 4]] \<and>
   payloads (run [Click, StreamGranted, Click, DataAvailable 0 [5, 6], Stopped 0] initial_page) =
     [[5, 6]]"
proof -
  have a: "\<not> capture_active (run [] initial_page)" "chunks (run [] initial_page) = []"
    by (simp_all add: capture_active_def initial_page_def)
  have f: "[Click, StreamGranted, Click, DataAvailable 0 [5, 6], Stopped 0] =
      flushed_session 0 [] [[5, 6]]"
    by (simp add: flushed_session_def)
  from session_payload [OF refl a, of "[[1, 2], [3]]" "[[4]]"]
    session_payload [OF refl a, of "[]" "[[5, 6]]"] a
  show ?thesis unfolding f by (simp add: initial_page_facts)
qed

text \<open>
  C3: no task of the event loop removes a chunk from the buffer, and of two sessions
  in a row, each with chunks before and after its call of \<^verbatim>\<open>stop()\<close>, the second uploads
  what the buffer held before, the chunks of the first session and then its own.
\<close>

theorem buffer_never_cleared:
  assumes "p = run es initial_page" "\<not> capture_active p"
  shows "(\<exists>ys. chunks (run es' p) = chunks p @ ys) \<and>
     payloads (run (flushed_session (length (recorders p)) bs1 as1 @
                    flushed_session (Suc (length (recorders p))) bs2 as2) p) =
       payloads p @ [concat (chunks p @ bs1 @ as1), concat (chunks p @ bs1 @ as1 @ bs2 @ as2)]"
proof
  show "\<exists>ys. chunks (run es' p) = chunks p @ ys" by (rule chunks_run)
next
  let ?n = "length (recorders p)"
  let ?q = "run (flushed_session ?n bs1 as1) p"
  have w: "well_formed p" unfolding assms(1) by (rule well_formed_run [OF well_formed_initial])
  have wq: "well_formed ?q" using w by (rule well_formed_run)
  have iq: "\<not> capture_active ?q" using w assms(2) by (rule flushed_session_facts(4))
  have n: "length (recorders ?q) = Suc ?n" using w assms(2) by (rule flushed_session_facts(3))
  have 1: "requests ?q = requests p @ [upload_request (chunks p @ bs1 @ as1)]"
    using w assms(2) by (rule flushed_session_facts(1))
  have 2: "requests (run (flushed_session (Suc ?n) bs2 as2) ?q) =
      requests ?q @ [upload_request (chunks p @ bs1 @ as1 @ bs2 @ as2)]"
    using flushed_session_facts(1) [OF wq iq, of bs2 as2]
      flushed_session_facts(2) [OF w assms(2), of bs1 as1]
    unfolding n by simp
  show "payloads (run (flushed_session ?n bs1 as1 @ flushed_session (Suc ?n) bs2 as2) p) =
      payloads p @ [concat (chunks p @ bs1 @ as1), concat (chunks p @ bs1 @ as1 @ bs2 @ as2)]"
    unfolding run_append using payloads_requests [OF 2] payloads_requests [OF 1] by simp
qed

theorem buffer_never_cleared_witness:
  "\<not> capture_active (run [] initial_page) \<and>
   payloads (run (flushed_session 0 [[1]] [[2]] @ flushed_session 1 [] [[3]]) initial_page) =
     [[1, 2], [1, 2, 3]]"
proof -
  have a: "\<not> capture_active (run [] initial_page)"
    by (simp add: capture_active_def initial_page_def)
  from buffer_never_cleared [OF refl a, of "[]" "[[1]]" "[[2]]" "[]" "[[3]]"] a show ?thesis
    by (simp add: initial_page_facts)
qed

text \<open>
  C4: on every page the event loop can reach. When there is no recorder or it is
  inactive, the click asks for the stream and changes nothing else, and with the stream
  the page gets a new recorder, current and recording, and the log line. A chunk that
  any recorder delivers, in whatever state, is appended to the buffer, so the buffer
  after a run is the buffer before it and the chunks delivered. When the recorder is
  active, the click changes that recorder alone: it is inactive and one more stop event
  is queued for it; the stop event then sends the one request of the buffer and
  changes nothing else. So does every queued stop event of any recorder, and a stop
  event that was not queued does nothing. Over the whole
  run, the requests sent and the stop events still queued are as many as the calls of
  \<^verbatim>\<open>stop()\<close>.
\<close>

theorem toggle_behaviour:
  assumes "p = run es initial_page"
  shows "(\<not> capture_active p \<longrightarrow>
       step Click p = p\<lparr>acquiring := Suc (acquiring p)\<rparr> \<and>
       run [Click, StreamGranted] p = onclick_resume p \<and>
       onclick_resume p =
         p\<lparr>mediaRecorder := Some (length (recorders p)),
           recorders := recorders p @ [new_recorder],
           console := console p @ [''Recording...'']\<rparr> \<and>
       mediaRecorder (onclick_resume p) = Some (length (recorders p)) \<and>
       recorders (onclick_resume p) = recorders p @ [new_recorder] \<and>
       state (recorders (onclick_resume p) ! length (recorders p)) = recording \<and>
       capture_active (onclick_resume p) \<and>
       step (DataAvailable (length (recorders p)) d) (onclick_resume p) =
         (onclick_resume p)\<lparr>chunks := chunks p @ [d]\<rparr>) \<and>
     (\<forall>r c. r < length (recorders p) \<longrightarrow>
        step (DataAvailable r c) p = p\<lparr>chunks := chunks p @ [c]\<rparr>) \<and>
     chunks (run es' p) = chunks p @ delivered es' p \<and>
     (capture_active p \<longrightarrow>
       (\<exists>r. mediaRecorder p = Some r \<and> r < length (recorders p) \<and>
          step Click p =
            p\<lparr>recorders := (recorders p)[r := (recorders p ! r)
                 \<lparr>state := inactive, stop_queued := Suc (stop_queued (recorders p ! r))\<rparr>]\<rparr> \<and>
          step (Stopped r) (step Click p) =
            p\<lparr>recorders := (recorders p)[r := (recorders p ! r)\<lparr>state := inactive\<rparr>],
              requests := requests p @ [upload_request (chunks p)],
              awaiting_response := Suc (awaiting_response p)\<rparr> \<and>
          state (recorders (step Click p) ! r) = inactive \<and>
          \<not> capture_active (step Click p) \<and>
          stop_queued (recorders (step Click p) ! r) = Suc (stop_queued (recorders p ! r)) \<and>
          requests (step Click p) = requests p \<and>
          requests (step (Stopped r) (step Click p)) = requests p @ [upload_request (chunks p)])) \<and>
     (\<forall>r. r < length (recorders p) \<and> stop_queued (recorders p ! r) = 0 \<longrightarrow>
        step (Stopped r) p = p) \<and>
     (\<forall>r k. r < length (recorders p) \<and> stop_queued (recorders p ! r) = Suc k \<longrightarrow>
        step (Stopped r) p =
          p\<lparr>recorders := (recorders p)[r := (recorders p ! r)\<lparr>stop_queued := k\<rparr>],
            requests := requests p @ [upload_request (chunks p)],
            awaiting_response := Suc (awaiting_response p)\<rparr>) \<and>
     length (requests p) + stops_pending p = stop_calls es initial_page"
proof (intro conjI impI allI)
  have w: "well_formed p" unfolding assms by (rule well_formed_run [OF well_formed_initial])
  {
    assume i: "\<not> capture_active p"
    show "step Click p = p\<lparr>acquiring := Suc (acquiring p)\<rparr>"
      using onclick_idle [OF w i] by simp
    show "run [Click, StreamGranted] p = onclick_resume p"
      using w i by (rule start_capture)
    show "onclick_resume p =
         p\<lparr>mediaRecorder := Some (length (recorders p)),
           recorders := recorders p @ [new_recorder],
           console := console p @ [''Recording...'']\<rparr>"
      by (rule onclick_resume_eq)
    show "mediaRecorder (onclick_resume p) = Some (length (recorders p))"
      "recorders (onclick_resume p) = recorders p @ [new_recorder]"
      "state (recorders (onclick_resume p) ! length (recorders p)) = recording"
      "capture_active (onclick_resume p)"
      "step (DataAvailable (length (recorders p)) d) (onclick_resume p) =
         (onclick_resume p)\<lparr>chunks := chunks p @ [d]\<rparr>"
      by (simp_all add: onclick_resume_eq new_recorder_def capture_active_def)
  }
  {
    fix r c
    assume "r < length (recorders p)"
    with w show "step (DataAvailable r c) p = p\<lparr>chunks := chunks p @ [c]\<rparr>"
      by (rule deliver_one)
  }
  show "chunks (run es' p) = chunks p @ delivered es' p"
    using w by (rule chunks_run_delivered)
  {
    assume "capture_active p"
    then obtain r where r: "mediaRecorder p = Some r" "r < length (recorders p)"
      "state (recorders p ! r) \<noteq> inactive"
      by (auto simp: capture_active_def split: option.splits)
    have s: "onstop (recorders p ! r) = Some send_audio"
      using well_formed_nth [OF w r(2)] by simp
    show "\<exists>r. mediaRecorder p = Some r \<and> r < length (recorders p) \<and>
          step Click p =
            p\<lparr>recorders := (recorders p)[r := (recorders p ! r)
                 \<lparr>state := inactive, stop_queued := Suc (stop_queued (recorders p ! r))\<rparr>]\<rparr> \<and>
          step (Stopped r) (step Click p) =
            p\<lparr>recorders := (recorders p)[r := (recorders p ! r)\<lparr>state := inactive\<rparr>],
              requests := requests p @ [upload_request (chunks p)],
              awaiting_response := Suc (awaiting_response p)\<rparr> \<and>
          state (recorders (step Click p) ! r) = inactive \<and>
          \<not> capture_active (step Click p) \<and>
          stop_queued (recorders (step Click p) ! r) = Suc (stop_queued (recorders p ! r)) \<and>
          requests (step Click p) = requests p \<and>
          requests (step (Stopped r) (step Click p)) = requests p @ [upload_request (chunks p)]"
      unfolding stop_capture [OF r]
      using r s by (intro exI [of _ r]) (simp add: capture_active_def Let_def sendAudio_start_def)
  }
  {
    fix r
    assume "r < length (recorders p) \<and> stop_queued (recorders p ! r) = 0"
    then show "step (Stopped r) p = p" by (simp add: Let_def)
  }
  {
    fix r k
    assume a: "r < length (recorders p) \<and> stop_queued (recorders p ! r) = Suc k"
    then have r: "r < length (recorders p)" and k: "stop_queued (recorders p ! r) = Suc k"
      by simp_all
    show "step (Stopped r) p =
          p\<lparr>recorders := (recorders p)[r := (recorders p ! r)\<lparr>stop_queued := k\<rparr>],
            requests := requests p @ [upload_request (chunks p)],
            awaiting_response := Suc (awaiting_response p)\<rparr>"
      by (rule fire_stop [OF r conjunct2 [OF well_formed_nth [OF w r]] k])
  }
  show "length (requests p) + stops_pending p = stop_calls es initial_page"
    unfolding assms using uploads_run [OF well_formed_initial, of es]
    by (simp add: initial_page_def stops_pending_def)
qed

theorem toggle_behaviour_witness:
  "\<not> capture_active (run [] initial_page) \<and>
   capture_active (run [Click, StreamGranted] initial_page) \<and>
   length (requests (run [Click, StreamGranted, Click, Stopped 0] initial_page)) = 1 \<and>
   stop_calls [Click, StreamGranted, Click, Stopped 0] initial_page = 1 \<and>
   chunks (run [Click, StreamGranted, Click, DataAvailable 0 [7], Stopped 0] initial_page) = [[7]]"
proof -
  let ?es = "[Click, StreamGranted, Click, Stopped 0]"
  let ?fs = "[Click, StreamGranted, Click, DataAvailable 0 [7], Stopped 0]"
  have a: "\<not> capture_active (run [] initial_page)"
    by (simp add: capture_active_def initial_page_def)
  have b: "capture_active (run [Click, StreamGranted] initial_page)"
    by (simp add: capture_active_def initial_page_def onclick_def onclick_resume_def)
  have c: "stop_calls ?es initial_page = 1"
    by (simp add: capture_active_def initial_page_def onclick_def onclick_resume_def
        MediaRecorder_stop_def)
  have d: "stops_pending (run ?es initial_page) = 0"
    by (simp add: stops_pending_def initial_page_def onclick_def onclick_resume_def
        MediaRecorder_stop_def sendAudio_start_def)
  have "length (requests (run ?es initial_page)) + stops_pending (run ?es initial_page) =
      stop_calls ?es initial_page"
    by (rule toggle_behaviour [where es = ?es and d = "[]" and es' = "[]", OF refl,
          THEN conjunct2, THEN conjunct2, THEN conjunct2, THEN conjunct2, THEN conjunct2,
          THEN conjunct2])
  with c d have e: "length (requests (run ?es initial_page)) = 1" by simp
  have "chunks (run ?fs (run [] initial_page)) =
      chunks (run [] initial_page) @ delivered ?fs (run [] initial_page)"
    by (rule toggle_behaviour [where es = "[]" and d = "[]" and es' = ?fs, OF refl,
          THEN conjunct2, THEN conjunct2, THEN conjunct1])
  then have f: "chunks (run ?fs initial_page) = [[7]]"
    by (simp add: initial_page_def onclick_def onclick_resume_def MediaRecorder_stop_def)
  from a b c e f show ?thesis by simp
qed

end
